theory Spec2Isabelle
  imports Main
begin

section \<open>Python strings\<close>

text \<open>
  A Python \<open>str\<close> is modelled as a \<open>string\<close>, a list of characters. The character
  classes below are CPython's for the code points below 128, which is the alphabet
  the SQL keywords and separators of the gateway live in: \<open>str.isspace\<close>, which
  \<open>str.strip()\<close>, \<open>str.split()\<close> and the pattern \<open>\s\<close> share, holds for the
  code points 9 to 13, 28 to 31 and 32; \<open>\d\<close> is a decimal digit; \<open>\w\<close> is a
  letter, a digit or the underscore. Characters from 128 on are taken to be in no
  class and to have no other case.
\<close>

definition code :: "char \<Rightarrow> nat" where
  "code c = of_char c"

definition isspace :: "char \<Rightarrow> bool" where
  "isspace c = ((9 \<le> code c \<and> code c \<le> 13) \<or> (28 \<le> code c \<and> code c \<le> 32))"

definition isdigit :: "char \<Rightarrow> bool" where
  "isdigit c = (48 \<le> code c \<and> code c \<le> 57)"

definition isupper :: "char \<Rightarrow> bool" where
  "isupper c = (65 \<le> code c \<and> code c \<le> 90)"

definition islower :: "char \<Rightarrow> bool" where
  "islower c = (97 \<le> code c \<and> code c \<le> 122)"

definition isword :: "char \<Rightarrow> bool" where
  "isword c = (isupper c \<or> islower c \<or> isdigit c \<or> c = CHR ''_'')"

definition lower :: "char \<Rightarrow> char" where
  "lower c = (if isupper c then char_of (code c + 32) else c)"

definition upper_char :: "char \<Rightarrow> char" where
  "upper_char c = (if islower c then char_of (code c - 32) else c)"

definition upper :: "string \<Rightarrow> string" where
  "upper s = map upper_char s"

text \<open>\<open>s.strip()\<close> and \<open>s.rstrip(chars)\<close>.\<close>

definition rstrip :: "(char \<Rightarrow> bool) \<Rightarrow> string \<Rightarrow> string" where
  "rstrip P s = rev (dropWhile P (rev s))"

definition strip :: "string \<Rightarrow> string" where
  "strip s = rstrip isspace (dropWhile isspace s)"

text \<open>
  \<open>s.split(sep)\<close> for a separator of one character: the scan keeps the piece it is
  reading in \<open>cur\<close> (reversed) and closes it at every separator, so that the empty
  string gives one empty piece.
\<close>

fun split_sep :: "char \<Rightarrow> string \<Rightarrow> string \<Rightarrow> string list" where
  "split_sep d cur [] = [rev cur]"
| "split_sep d cur (c # cs) =
     (if c = d then rev cur # split_sep d [] cs else split_sep d (c # cur) cs)"

definition split :: "char \<Rightarrow> string \<Rightarrow> string list" where
  "split d s = split_sep d [] s"

text \<open>\<open>s.split()\<close>: the maximal runs of characters that are not whitespace.\<close>

fun split_ws :: "string \<Rightarrow> string \<Rightarrow> string list" where
  "split_ws cur [] = (if cur = [] then [] else [rev cur])"
| "split_ws cur (c # cs) =
     (if isspace c then (if cur = [] then split_ws [] cs else rev cur # split_ws [] cs)
      else split_ws (c # cur) cs)"

definition split_whitespace :: "string \<Rightarrow> string list" where
  "split_whitespace s = split_ws [] s"

section \<open>The regular expressions of the gateway\<close>

text \<open>
  The patterns of the gateway use literals (always under \<open>re.I\<close>), \<open>\b\<close>, \<open>^\<close>,
  \<open>\s*\<close>, \<open>\s+\<close>, \<open>\d+\<close>, concatenation and alternation. A position in the subject
  is the character before it (\<open>None\<close> at the start of the string) and the rest of
  the string from it; \<open>matches r p\<close> lists the positions at which a match of \<open>r\<close>
  that starts at \<open>p\<close> can end, in the order in which a backtracking matcher tries
  them. The gateway only ever tests whether \<open>re.search\<close> or \<open>re.match\<close> found a
  match, which is whether that list is empty.
\<close>

type_synonym pos = "char option \<times> string"

datatype cclass = Space | Digit

datatype regex =
    Lit string
  | WordB
  | Bol
  | Star cclass
  | Plus cclass
  | Seq "regex list"
  | Alt "regex list"

fun in_class :: "cclass \<Rightarrow> char \<Rightarrow> bool" where
  "in_class Space c = isspace c"
| "in_class Digit c = isdigit c"

text \<open>
  \<open>\b\<close>: exactly one of the character before and the character after the position
  is a word character, where the outside of the string is not.
\<close>

fun word_boundary :: "pos \<Rightarrow> bool" where
  "word_boundary (prev, rest) =
     ((case prev of None \<Rightarrow> False | Some c \<Rightarrow> isword c)
      \<noteq> (case rest of [] \<Rightarrow> False | c # _ \<Rightarrow> isword c))"

fun lit :: "string \<Rightarrow> pos \<Rightarrow> pos list" where
  "lit [] p = [p]"
| "lit (k # ks) (prev, []) = []"
| "lit (k # ks) (prev, c # cs) = (if lower c = lower k then lit ks (Some c, cs) else [])"

fun star :: "cclass \<Rightarrow> pos \<Rightarrow> pos list" where
  "star k (prev, []) = [(prev, [])]"
| "star k (prev, c # cs) =
     (if in_class k c then star k (Some c, cs) @ [(prev, c # cs)] else [(prev, c # cs)])"

fun plus :: "cclass \<Rightarrow> pos \<Rightarrow> pos list" where
  "plus k (prev, []) = []"
| "plus k (prev, c # cs) = (if in_class k c then star k (Some c, cs) else [])"

fun matches :: "regex \<Rightarrow> pos \<Rightarrow> pos list"
  and matches_seq :: "regex list \<Rightarrow> pos \<Rightarrow> pos list"
  and matches_alt :: "regex list \<Rightarrow> pos \<Rightarrow> pos list" where
  "matches (Lit s) p = lit s p"
| "matches WordB p = (if word_boundary p then [p] else [])"
| "matches Bol p = (if fst p = None then [p] else [])"
| "matches (Star k) p = star k p"
| "matches (Plus k) p = plus k p"
| "matches (Seq rs) p = matches_seq rs p"
| "matches (Alt rs) p = matches_alt rs p"
| "matches_seq [] p = [p]"
| "matches_seq (r # rs) p = concat (map (matches_seq rs) (matches r p))"
| "matches_alt [] p = []"
| "matches_alt (r # rs) p = matches r p @ matches_alt rs p"

text \<open>\<open>re.match\<close> tries the start of the string, \<open>re.search\<close> every position.\<close>

definition re_match :: "regex \<Rightarrow> string \<Rightarrow> bool" where
  "re_match r s = (matches r (None, s) \<noteq> [])"

fun search_from :: "regex \<Rightarrow> pos \<Rightarrow> bool" where
  "search_from r (prev, []) = (matches r (prev, []) \<noteq> [])"
| "search_from r (prev, c # cs) =
     (matches r (prev, c # cs) \<noteq> [] \<or> search_from r (Some c, cs))"

definition re_search :: "regex \<Rightarrow> string \<Rightarrow> bool" where
  "re_search r s = search_from r (None, s)"

text \<open>The patterns, in the order in which \<open>_run\<close> uses them.\<close>

definition write_rx :: regex where
  "write_rx = Seq [WordB, Alt [Lit ''INSERT'', Lit ''UPDATE'', Lit ''DELETE'',
                               Lit ''CREATE'', Lit ''ALTER'', Lit ''REPLACE''], WordB]"

definition dangerous_rx :: regex where
  "dangerous_rx = Seq [WordB, Alt [Lit ''DROP'', Lit ''TRUNCATE'', Lit ''EXEC'',
                                   Lit ''EXECUTE''], WordB]"

definition allowed_rx :: regex where
  "allowed_rx = Seq [Bol, Star Space, Alt [Lit ''select'', Lit ''update'', Lit ''insert'',
                                           Lit ''delete''], WordB]"

definition select_rx :: regex where
  "select_rx = Seq [Bol, Star Space, Lit ''select'', WordB]"

definition limit_rx :: regex where
  "limit_rx = Seq [WordB, Lit ''limit'', Plus Space, Plus Digit, WordB]"

definition aggregate_rx :: regex where
  "aggregate_rx = Alt [Seq [WordB, Lit ''count(''],
                       Seq [WordB, Lit ''group'', Plus Space, Lit ''by'', WordB],
                       Seq [WordB, Lit ''sum(''],
                       Seq [WordB, Lit ''avg(''],
                       Seq [WordB, Lit ''max(''],
                       Seq [WordB, Lit ''min('']]"

section \<open>The data source\<close>

text \<open>
  The gateway reaches the database through \<open>engine.connect()\<close>,
  \<open>conn.exec_driver_sql\<close>, \<open>result.fetchall()\<close>, \<open>result.keys()\<close> and
  \<open>conn.commit()\<close>. The database engine is not part of the repository, so it is a
  parameter: \<open>exec_driver_sql\<close> runs a statement text on the committed state and
  either raises (the message of the exception) or gives the result object and the
  state that a commit would make durable; a connection that is closed without a
  commit leaves the committed state as it was, and so does a commit that raises.
  A Python exception is modelled by its message, which is all \<open>_run\<close> uses of it.
\<close>

type_synonym exn = string

record 'v cursor =
  fetchall :: "exn + 'v list list"
  keys :: "string list"

record ('db, 'v) engine =
  connect :: "'db \<Rightarrow> exn option"
  exec_driver_sql :: "'db \<Rightarrow> string \<Rightarrow> exn + ('v cursor \<times> 'db)"
  commit :: "'db \<Rightarrow> exn + 'db"

text \<open>
  The state of the data source is its committed content together with the calls
  that have been made to it, so that "the data source was not contacted" can be
  said.
\<close>

datatype event = Connect | Execute string | Commit

record 'db world =
  durable :: 'db
  calls :: "event list"

definition called :: "event \<Rightarrow> 'db world \<Rightarrow> 'db world" where
  "called e w = w\<lparr>calls := calls w @ [e]\<rparr>"

text \<open>What \<open>_run\<close> returns: a string, a \<open>{"columns", "rows"}\<close> dict, or a list of these.\<close>

datatype 'v result =
    Str string
  | Dict "string list" "'v list list"
  | List "'v result list"

section \<open>The executor\<close>

text \<open>
  The \<open>try\<close> block that ends \<open>_run\<close> in \<open>main.py\<close> and the loop body in \<open>app.py\<close>.
  \<open>Inl e\<close> is an exception with message \<open>e\<close> reaching the \<open>except\<close> clause.
\<close>

definition execute ::
  "('db, 'v) engine \<Rightarrow> string \<Rightarrow> 'db world \<Rightarrow> (exn + 'v result) \<times> 'db world" where
  "execute eng s w =
     (case connect eng (durable w) of
        Some e \<Rightarrow> (Inl e, called Connect w)
      | None \<Rightarrow>
         (let w1 = called (Execute s) (called Connect w) in
          case exec_driver_sql eng (durable w) s of
            Inl e \<Rightarrow> (Inl e, w1)
          | Inr (result, pending) \<Rightarrow>
              if re_match select_rx s then
                (case fetchall result of
                   Inl e \<Rightarrow> (Inl e, w1)
                 | Inr rows \<Rightarrow>
                     (Inr (Dict (if keys result \<noteq> [] then keys result else []) rows), w1))
              else
                (let w2 = called Commit w1 in
                 case commit eng pending of
                   Inl e \<Rightarrow> (Inl e, w2)
                 | Inr db \<Rightarrow>
                     (case split_whitespace s of
                        [] \<Rightarrow> (Inl ''list index out of range'', w2\<lparr>durable := db\<rparr>)
                      | operation # _ \<Rightarrow>
                          (Inr (Str (upper operation @ '' operation completed successfully'')),
                           w2\<lparr>durable := db\<rparr>)))))"

section \<open>The gateway of \<open>main.py\<close>: one statement\<close>

record security_manager =
  is_authenticated :: bool

definition dangerous_error :: string where
  "dangerous_error =
     ''ERROR: Dangerous operations (DROP, TRUNCATE, EXEC) are not allowed for security reasons.''"

definition authentication_error :: string where
  "authentication_error =
     ''ERROR: Write operations require authentication. Please authenticate first.''"

definition multiple_error :: string where
  "multiple_error = ''ERROR: Multiple statements are not allowed.''"

definition statement_type_error :: string where
  "statement_type_error = ''ERROR: Only SELECT, UPDATE, INSERT, DELETE statements are allowed.''"

text \<open>\<open>s = sql.strip().rstrip(";")\<close>\<close>

definition body :: "string \<Rightarrow> string" where
  "body sql = rstrip (\<lambda>c. c = CHR '';'') (strip sql)"

text \<open>Security layer 4: the statement as it is sent to the driver.\<close>

definition inject_limit :: "string \<Rightarrow> string" where
  "inject_limit s =
     (if re_match select_rx s \<and> \<not> re_search limit_rx s \<and> \<not> re_search aggregate_rx s
      then s @ '' LIMIT 100'' else s)"

definition main_run ::
  "('db, 'v) engine \<Rightarrow> security_manager option \<Rightarrow> string \<Rightarrow> 'db world
     \<Rightarrow> 'v result \<times> 'db world" where
  "main_run eng sm sql w =
     (let s = body sql;
          write_operations = re_search write_rx s;
          dangerous_operations = re_search dangerous_rx s
      in if dangerous_operations then (Str dangerous_error, w)
         else if write_operations
                 \<and> (case sm of None \<Rightarrow> True | Some m \<Rightarrow> \<not> is_authenticated m)
           then (Str authentication_error, w)
         else if CHR '';'' \<in> set s then (Str multiple_error, w)
         else if \<not> re_match allowed_rx s then (Str statement_type_error, w)
         else (case execute eng (inject_limit s) w of
                 (Inl e, w') \<Rightarrow> (Str (''ERROR: '' @ e), w')
               | (Inr r, w') \<Rightarrow> (r, w')))"

section \<open>The gateway of \<open>app.py\<close>: a batch of statements\<close>

text \<open>
  In \<open>app.py\<close> the tool tests that a security manager has been set and reads the
  flag from the session state of the web framework.
\<close>

record app_security_manager =
  admin_email :: string

record session_state =
  session_is_authenticated :: bool

definition statements :: "string \<Rightarrow> string list" where
  "statements sql = filter (\<lambda>s. s \<noteq> []) (map strip (split CHR '';'' sql))"

text \<open>The \<open>for\<close> loop over the statements, with the results collected so far.\<close>

fun app_loop ::
  "('db, 'v) engine \<Rightarrow> app_security_manager option \<Rightarrow> session_state \<Rightarrow> string list
     \<Rightarrow> 'v result list \<Rightarrow> 'db world \<Rightarrow> 'v result \<times> 'db world" where
  "app_loop eng sm st [] results w =
     ((if length results = 1 then results ! 0 else List results), w)"
| "app_loop eng sm st (s # rest) results w =
     (let write_operations = re_search write_rx s;
          dangerous_operations = re_search dangerous_rx s
      in if dangerous_operations then (Str dangerous_error, w)
         else if write_operations \<and> (sm = None \<or> \<not> session_is_authenticated st)
           then (Str authentication_error, w)
         else if \<not> re_match allowed_rx s then (Str statement_type_error, w)
         else (case execute eng (inject_limit s) w of
                 (Inl e, w') \<Rightarrow> (Str (''ERROR: '' @ e), w')
               | (Inr r, w') \<Rightarrow> app_loop eng sm st rest (results @ [r]) w'))"

definition app_run ::
  "('db, 'v) engine \<Rightarrow> app_security_manager option \<Rightarrow> session_state \<Rightarrow> string
     \<Rightarrow> 'db world \<Rightarrow> 'v result \<times> 'db world" where
  "app_run eng sm st sql w = app_loop eng sm st (statements sql) [] w"

section \<open>The read-only gateway of \<open>scripts/gemini_agent.py\<close>\<close>






section \<open>A small data source for concrete runs\<close>

text \<open>
  A database with one table \<open>t\<close> of one integer column \<open>a\<close>; its state is the list of
  rows. The driver knows three statements and raises a syntax error on every other
  text.
\<close>

definition demo_exec :: "int list list \<Rightarrow> string \<Rightarrow> exn + (int cursor \<times> int list list)" where
  "demo_exec db s =
     (if s = ''SELECT a FROM t LIMIT 100''
        then Inr (\<lparr>fetchall = Inr db, keys = [''a'']\<rparr>, db)
      else if s = ''SELECT COUNT(*) FROM t''
        then Inr (\<lparr>fetchall = Inr [[int (length db)]], keys = [''COUNT(*)'']\<rparr>, db)
      else if s = ''DELETE FROM t''
        then Inr (\<lparr>fetchall = Inl ''This result object does not return rows.'', keys = []\<rparr>, [])
      else Inl ''syntax error'')"

definition demo_engine :: "(int list list, int) engine" where
  "demo_engine = \<lparr>connect = (\<lambda>db. None), exec_driver_sql = demo_exec, commit = Inr\<rparr>"

definition demo_world :: "int list list world" where
  "demo_world = \<lparr>durable = [[1], [2], [3]], calls = []\<rparr>"

definition logged_in :: "security_manager option" where
  "logged_in = Some \<lparr>is_authenticated = True\<rparr>"

definition logged_out :: "security_manager option" where
  "logged_out = Some \<lparr>is_authenticated = False\<rparr>"

definition app_manager :: "app_security_manager option" where
  "app_manager = Some \<lparr>admin_email = ''admin@example.org''\<rparr>"

section \<open>Notions used to state the properties\<close>

text \<open>
  The two shapes of pattern the gateway uses: a keyword of a list between two
  \<open>\b\<close>, searched anywhere, and a keyword of a list after leading whitespace at
  the start of the statement, followed by \<open>\b\<close>. A keyword list is well formed
  when its keywords are not empty and made of word characters.
\<close>

definition keyword_rx :: "string list \<Rightarrow> regex" where
  "keyword_rx kws = Seq [WordB, Alt (map Lit kws), WordB]"

definition keywords_ok :: "string list \<Rightarrow> bool" where
  "keywords_ok kws = (\<forall>kw\<in>set kws. kw \<noteq> [] \<and> (\<forall>k\<in>set kw. isword k))"

definition leading_rx :: "string list \<Rightarrow> regex" where
  "leading_rx kws = Seq [Bol, Star Space, Alt (map Lit kws), WordB]"

text \<open>The calls made to the data source between two states of it.\<close>

definition new_calls :: "'db world \<Rightarrow> 'db world \<Rightarrow> event list" where
  "new_calls w w' = drop (length (calls w)) (calls w')"




section \<open>Character classes\<close>

text \<open>
  A keyword pattern only matches word characters, so a character that is not one
  (whitespace, the separator) cuts the subject in two parts that can be searched
  apart. Hence stripping does not change what a keyword search finds, and a
  keyword is in a batch exactly when it is in one of its statements.
\<close>

lemma code_char_of: "code (char_of n) = n mod 256"
  by (simp add: code_def)

lemma isspace_not_word: "isspace c \<Longrightarrow> \<not> isword c"
  by (auto simp: isspace_def isword_def isupper_def islower_def isdigit_def code_def)

lemma semicolon_not_word: "\<not> isword CHR '';''"
  by (simp add: isword_def isupper_def islower_def isdigit_def code_def)

lemma isword_lower: "isword k \<Longrightarrow> isword (lower k)"
  by (auto simp: lower_def isword_def isupper_def islower_def isdigit_def code_char_of)

lemma lower_not_word: "\<not> isword c \<Longrightarrow> lower c = c"
  by (simp add: lower_def isword_def)

lemma lower_differs: "isword k \<Longrightarrow> \<not> isword c \<Longrightarrow> lower c \<noteq> lower k"
  using isword_lower lower_not_word by metis

lemma matches_alt_lits: "matches_alt (map Lit kws) p = concat (map (\<lambda>kw. lit kw p) kws)"
  by (induction kws) simp_all

lemma keyword_matches:
  "(matches (keyword_rx kws) p \<noteq> []) =
     (word_boundary p \<and> (\<exists>kw\<in>set kws. \<exists>q\<in>set (lit kw p). word_boundary q))"
  by (auto simp: keyword_rx_def matches_alt_lits)

lemma lit_append:
  "\<forall>k\<in>set kw. lower c \<noteq> lower k \<Longrightarrow>
   lit kw (prev, u @ c # y) = map (\<lambda>p. (fst p, snd p @ c # y)) (lit kw (prev, u))"
proof (induction kw arbitrary: prev u)
  case Nil
  show ?case by simp
next
  case (Cons k ks)
  show ?case
  proof (cases u)
    case Nil
    with Cons.prems show ?thesis by simp
  next
    case (Cons a u')
    with Cons.IH [of "Some a" u'] Cons.prems show ?thesis by simp
  qed
qed

lemma word_boundary_append:
  "\<not> isword c \<Longrightarrow> word_boundary (q, r @ c # y) = word_boundary (q, r)"
  by (cases r) simp_all

lemma word_boundary_prev:
  "\<not> isword c \<Longrightarrow> word_boundary (Some c, y) = word_boundary (None, y)"
  by simp

declare word_boundary.simps [simp del]

lemma lit_nil: "kw \<noteq> [] \<Longrightarrow> lit kw (prev, []) = []"
  by (cases kw) simp_all

lemma lit_prev: "kw \<noteq> [] \<Longrightarrow> lit kw (prev, y) = lit kw (prev', y)"
  by (cases kw; cases y) simp_all

lemma keyword_matches_append:
  assumes "keywords_ok kws" "\<not> isword c"
  shows "(matches (keyword_rx kws) (prev, u @ c # y) \<noteq> []) = (matches (keyword_rx kws) (prev, u) \<noteq> [])"
proof -
  have "lit kw (prev, u @ c # y) = map (\<lambda>p. (fst p, snd p @ c # y)) (lit kw (prev, u))"
    if "kw \<in> set kws" for kw
    using that assms lower_differs by (intro lit_append) (auto simp: keywords_ok_def)
  then have "(\<exists>q\<in>set (lit kw (prev, u @ c # y)). word_boundary q)
             = (\<exists>q\<in>set (lit kw (prev, u)). word_boundary q)" if "kw \<in> set kws" for kw
    using that assms(2) by (auto simp: word_boundary_append)
  then show ?thesis
    using assms(2) by (simp add: keyword_matches word_boundary_append cong: bex_cong)
qed

lemma keyword_matches_nil:
  "keywords_ok kws \<Longrightarrow> matches (keyword_rx kws) (prev, []) = []"
  using keyword_matches [of kws "(prev, [])"] by (auto simp: keywords_ok_def lit_nil)

lemma keyword_matches_nonword:
  assumes "keywords_ok kws" "\<not> isword c"
  shows "matches (keyword_rx kws) (prev, c # y) = []"
  using keyword_matches_append [OF assms, of prev "[]" y] keyword_matches_nil [OF assms(1)]
  by simp

lemma keyword_matches_prev:
  assumes "keywords_ok kws" "\<not> isword c"
  shows "(matches (keyword_rx kws) (Some c, y) \<noteq> []) = (matches (keyword_rx kws) (None, y) \<noteq> [])"
proof -
  have "lit kw (Some c, y) = lit kw (None, y)" if "kw \<in> set kws" for kw
    using that assms(1) by (intro lit_prev) (auto simp: keywords_ok_def)
  then show ?thesis
    using assms(2) by (simp add: keyword_matches word_boundary_prev cong: bex_cong)
qed

lemma search_from_prev:
  assumes "keywords_ok kws" "\<not> isword c"
  shows "search_from (keyword_rx kws) (Some c, y) = search_from (keyword_rx kws) (None, y)"
  using keyword_matches_prev [OF assms] keyword_matches_nil [OF assms(1)]
  by (cases y) simp_all

lemma search_from_append:
  assumes "keywords_ok kws" "\<not> isword c"
  shows "search_from (keyword_rx kws) (prev, x @ c # y)
         = (search_from (keyword_rx kws) (prev, x) \<or> search_from (keyword_rx kws) (None, y))"
proof (induction x arbitrary: prev)
  case Nil
  show ?case
    using keyword_matches_nonword [OF assms] keyword_matches_nil [OF assms(1)]
      search_from_prev [OF assms] by simp
next
  case (Cons a x)
  show ?case
    using Cons.IH [of "Some a"] keyword_matches_append [OF assms, of prev "a # x" y]
    by simp
qed

lemma re_search_append:
  assumes "keywords_ok kws" "\<not> isword c"
  shows "re_search (keyword_rx kws) (x @ c # y)
         = (re_search (keyword_rx kws) x \<or> re_search (keyword_rx kws) y)"
  unfolding re_search_def by (rule search_from_append [OF assms])

lemma re_search_nil: "keywords_ok kws \<Longrightarrow> \<not> re_search (keyword_rx kws) []"
  by (simp add: re_search_def keyword_matches_nil)

lemma re_search_cons:
  "keywords_ok kws \<Longrightarrow> \<not> isword c \<Longrightarrow> re_search (keyword_rx kws) (c # y) = re_search (keyword_rx kws) y"
  using re_search_append [of kws c "[]" y] by (simp add: re_search_nil)

lemma re_search_snoc:
  "keywords_ok kws \<Longrightarrow> \<not> isword c \<Longrightarrow> re_search (keyword_rx kws) (x @ [c]) = re_search (keyword_rx kws) x"
  using re_search_append [of kws c x "[]"] by (simp add: re_search_nil)

lemma re_search_dropWhile:
  assumes "keywords_ok kws" "\<And>c. P c \<Longrightarrow> \<not> isword c"
  shows "re_search (keyword_rx kws) (dropWhile P s) = re_search (keyword_rx kws) s"
  by (induction s) (simp_all add: re_search_cons assms)

lemma re_search_rstrip:
  assumes "keywords_ok kws" "\<And>c. P c \<Longrightarrow> \<not> isword c"
  shows "re_search (keyword_rx kws) (rstrip P s) = re_search (keyword_rx kws) s"
proof (induction s rule: rev_induct)
  case Nil
  show ?case by (simp add: rstrip_def)
next
  case (snoc c s)
  then show ?case
    by (cases "P c") (simp_all add: rstrip_def re_search_snoc assms)
qed

lemma re_search_strip:
  "keywords_ok kws \<Longrightarrow> re_search (keyword_rx kws) (strip s) = re_search (keyword_rx kws) s"
  by (simp add: strip_def re_search_rstrip re_search_dropWhile isspace_not_word)

lemma re_search_body:
  "keywords_ok kws \<Longrightarrow> re_search (keyword_rx kws) (body sql) = re_search (keyword_rx kws) sql"
  using re_search_rstrip [of kws "\<lambda>c. c = CHR '';''" "strip sql"] re_search_strip [of kws sql]
    semicolon_not_word
  by (simp add: body_def)





lemma write_keyword_rx:
  "write_rx = keyword_rx [''INSERT'', ''UPDATE'', ''DELETE'', ''CREATE'', ''ALTER'', ''REPLACE'']"
  by (simp add: write_rx_def keyword_rx_def)

lemma write_keywords_ok:
  "keywords_ok [''INSERT'', ''UPDATE'', ''DELETE'', ''CREATE'', ''ALTER'', ''REPLACE'']"
  by (simp add: keywords_ok_def isword_def isupper_def code_def)

section \<open>Leading keywords\<close>

text \<open>
  A leading keyword can only start where the leading whitespace ends; it is then
  found by the search for the same keyword, and it stays a leading keyword when
  text is appended after a character that is not a word character.
\<close>

lemma lit_first_word:
  assumes "kw \<noteq> []" "\<forall>k\<in>set kw. isword k" "lit kw (prev, c # cs) \<noteq> []"
  shows "isword c"
proof (rule ccontr)
  assume "\<not> isword c"
  moreover obtain k ks where "kw = k # ks" using assms(1) by (cases kw) auto
  ultimately show False using assms(2,3) lower_differs [of k c] by (auto split: if_splits)
qed

lemma star_lit:
  assumes "kw \<noteq> []" "\<forall>k\<in>set kw. isword k"
  shows "(\<exists>q\<in>set (star Space (prev, s)). \<exists>q'\<in>set (lit kw q). P q')
         = (\<exists>q'\<in>set (lit kw (None, dropWhile isspace s)). P q')"
proof (induction s arbitrary: prev)
  case Nil
  show ?case using lit_prev [OF assms(1), of prev "[]" None] by simp
next
  case (Cons c cs)
  show ?case
  proof (cases "isspace c")
    case True
    then have "lit kw (prev, c # cs) = []"
      using lit_first_word [OF assms, of prev c cs] isspace_not_word by blast
    with True Cons.IH [of "Some c"] show ?thesis by simp
  next
    case False
    then show ?thesis using lit_prev [OF assms(1), of prev "c # cs" None] by simp
  qed
qed

lemma leading_matches:
  assumes "keywords_ok kws"
  shows "(matches (leading_rx kws) (None, s) \<noteq> [])
         = (\<exists>kw\<in>set kws. \<exists>q\<in>set (lit kw (None, dropWhile isspace s)). word_boundary q)"
proof -
  have "(matches (leading_rx kws) (None, s) \<noteq> [])
        = (\<exists>kw\<in>set kws. \<exists>q\<in>set (star Space (None, s)). \<exists>q'\<in>set (lit kw q). word_boundary q')"
    by (auto simp: leading_rx_def matches_alt_lits)
  also have "\<dots> = (\<exists>kw\<in>set kws. \<exists>q\<in>set (lit kw (None, dropWhile isspace s)). word_boundary q)"
  proof -
    have "(\<exists>q\<in>set (star Space (None, s)). \<exists>q'\<in>set (lit kw q). word_boundary q')
          = (\<exists>q\<in>set (lit kw (None, dropWhile isspace s)). word_boundary q)"
      if "kw \<in> set kws" for kw
      using that assms star_lit [where kw = kw and P = word_boundary and prev = None and s = s] by (simp add: keywords_ok_def)
    then show ?thesis by simp
  qed
  finally show ?thesis .
qed

lemma keyword_at_start:
  assumes "keywords_ok kws" "kw \<in> set kws" "q \<in> set (lit kw (None, r))" "word_boundary q"
  shows "re_search (keyword_rx kws) r"
proof -
  have kw: "kw \<noteq> []" "\<forall>k\<in>set kw. isword k"
    using assms(1,2) by (auto simp: keywords_ok_def)
  obtain c cs where r: "r = c # cs"
    using assms(3) lit_nil [OF kw(1), of None] by (cases r) auto
  have "lit kw (None, c # cs) \<noteq> []"
    using assms(3) r by auto
  then have "isword c"
    by (rule lit_first_word [OF kw])
  then have "word_boundary (None, r)"
    by (simp add: r word_boundary.simps)
  then have "matches (keyword_rx kws) (None, r) \<noteq> []"
    using assms(2,3,4) by (auto simp: keyword_matches)
  then show ?thesis
    by (simp add: re_search_def r)
qed

lemma lit_lower: "map lower kw = map lower kw' \<Longrightarrow> lit kw p = lit kw' p"
proof (induction kw p arbitrary: kw' rule: lit.induct)
  case (1 p)
  then show ?case by simp
next
  case (2 k ks prev)
  then show ?case by (cases kw') simp_all
next
  case (3 k ks prev c cs)
  then show ?case by (cases kw') auto
qed

lemma leading_imp_search:
  assumes "keywords_ok kws" "keywords_ok lead" "\<forall>l\<in>set lead. \<exists>kw\<in>set kws. map lower kw = map lower l"
    and "matches (leading_rx lead) (None, s) \<noteq> []"
  shows "re_search (keyword_rx kws) s"
proof -
  obtain l q where l: "l \<in> set lead" "q \<in> set (lit l (None, dropWhile isspace s))" "word_boundary q"
    using assms(4) leading_matches [OF assms(2)] by auto
  then obtain kw where kw: "kw \<in> set kws" "map lower kw = map lower l"
    using assms(3) by auto
  have "q \<in> set (lit kw (None, dropWhile isspace s))"
    using l(2) lit_lower [OF kw(2)] by simp
  then have "re_search (keyword_rx kws) (dropWhile isspace s)"
    using keyword_at_start [OF assms(1) kw(1) _ l(3)] by simp
  then show ?thesis
    using re_search_dropWhile [OF assms(1), of isspace s] isspace_not_word by simp
qed

lemma leading_append:
  assumes "keywords_ok kws" "\<not> isword c" "matches (leading_rx kws) (None, s) \<noteq> []"
  shows "matches (leading_rx kws) (None, s @ c # t) \<noteq> []"
proof -
  obtain kw q where kw: "kw \<in> set kws" "q \<in> set (lit kw (None, dropWhile isspace s))" "word_boundary q"
    using assms(3) leading_matches [OF assms(1)] by auto
  have k: "kw \<noteq> []" "\<forall>k\<in>set kw. isword k"
    using assms(1) kw(1) by (auto simp: keywords_ok_def)
  have "lit kw (None, dropWhile isspace s) \<noteq> []"
    using kw(2) by auto
  then have "dropWhile isspace s \<noteq> []"
    using lit_nil [OF k(1), of None] by metis
  then obtain x where "x \<in> set s" "\<not> isspace x"
    by (metis dropWhile_eq_Nil_conv)
  then have d: "dropWhile isspace (s @ c # t) = dropWhile isspace s @ c # t"
    by simp
  have "lit kw (None, dropWhile isspace s @ c # t)
        = map (\<lambda>p. (fst p, snd p @ c # t)) (lit kw (None, dropWhile isspace s))"
    using k(2) assms(2) lower_differs by (intro lit_append) auto
  then have "(fst q, snd q @ c # t) \<in> set (lit kw (None, dropWhile isspace (s @ c # t)))"
    using kw(2) d by auto
  moreover have "word_boundary (fst q, snd q @ c # t)"
    using kw(3) assms(2) by (simp add: word_boundary_append)
  ultimately show ?thesis
    using kw(1) leading_matches [OF assms(1), of "s @ c # t"] by blast
qed


section \<open>The patterns of the gateway\<close>


lemma write_body: "re_search write_rx (body sql) = re_search write_rx sql"
  by (simp add: write_keyword_rx re_search_body write_keywords_ok)


lemma allowed_leading: "allowed_rx = leading_rx [''select'', ''update'', ''insert'', ''delete'']"
  by (simp add: allowed_rx_def leading_rx_def)

lemma select_leading: "matches select_rx p = matches (leading_rx [''select'']) p"
proof -
  have "matches_seq [Lit ''select'', WordB] = matches_seq [Alt [Lit ''select''], WordB]"
    by (rule ext) simp
  then show ?thesis
    by (simp add: select_rx_def leading_rx_def)
qed

lemma lower_keywords_ok:
  "keywords_ok [''select'', ''update'', ''insert'', ''delete'']" "keywords_ok [''select'']"
  "keywords_ok [''update'', ''insert'', ''delete'']" "keywords_ok [''create'', ''alter'', ''replace'']"
  by (simp_all add: keywords_ok_def isword_def islower_def code_def)

lemma select_inject: "re_match select_rx s \<Longrightarrow> re_match select_rx (s @ CHR '' '' # t)"
  unfolding re_match_def select_leading
  by (rule leading_append [OF lower_keywords_ok(2)]) (simp_all add: isspace_not_word isspace_def code_def)

lemma select_inject_limit: "re_match select_rx (inject_limit s) = re_match select_rx s"
  using select_inject [of s "''LIMIT 100''"] by (auto simp: inject_limit_def)


lemma allowed_cases:
  "re_match allowed_rx s \<Longrightarrow> \<not> re_match select_rx s \<Longrightarrow>
   matches (leading_rx [''update'', ''insert'', ''delete'']) (None, s) \<noteq> []"
  by (simp add: re_match_def select_leading allowed_leading leading_matches lower_keywords_ok)

lemma write_covers_dml:
  "\<forall>l\<in>set [''update'', ''insert'', ''delete''].
     \<exists>kw\<in>set [''INSERT'', ''UPDATE'', ''DELETE'', ''CREATE'', ''ALTER'', ''REPLACE''].
       map lower kw = map lower l"
  by code_simp


lemma allowed_write:
  assumes "re_match allowed_rx s" "\<not> re_match select_rx s"
  shows "re_search write_rx s"
  unfolding write_keyword_rx
  by (rule leading_imp_search [OF write_keywords_ok lower_keywords_ok(3) write_covers_dml
        allowed_cases [OF assms]])




section \<open>The executor and the loop\<close>

text \<open>
  What one run of the executor can do to the data source, and what the loop of
  \<open>app.py\<close> has done to it when it returns: the calls it made, and the part of
  the batch whose effects are in the committed state.
\<close>

lemma execute_calls:
  "calls (snd (execute eng s w)) = calls w @ new_calls w (snd (execute eng s w))"
  by (simp add: execute_def new_calls_def called_def Let_def
      split: option.splits sum.splits prod.splits list.splits)

lemma execute_new_calls:
  "new_calls w (snd (execute eng s w)) = [Connect]
   \<or> new_calls w (snd (execute eng s w)) = [Connect, Execute s]
   \<or> (new_calls w (snd (execute eng s w)) = [Connect, Execute s, Commit] \<and> \<not> re_match select_rx s)"
  by (simp add: execute_def new_calls_def called_def Let_def
      split: option.splits sum.splits prod.splits list.splits)

lemma execute_select:
  "re_match select_rx s \<Longrightarrow> durable (snd (execute eng s w)) = durable w"
  by (simp add: execute_def called_def Let_def
      split: option.splits sum.splits prod.splits list.splits)














lemma main_run_unfold:
  "main_run eng sm sql w =
     (if re_search dangerous_rx (body sql) then (Str dangerous_error, w)
      else if re_search write_rx (body sql)
              \<and> (case sm of None \<Rightarrow> True | Some m \<Rightarrow> \<not> is_authenticated m)
        then (Str authentication_error, w)
      else if CHR '';'' \<in> set (body sql) then (Str multiple_error, w)
      else if \<not> re_match allowed_rx (body sql) then (Str statement_type_error, w)
      else (case execute eng (inject_limit (body sql)) w of
              (Inl e, w') \<Rightarrow> (Str (''ERROR: '' @ e), w')
            | (Inr r, w') \<Rightarrow> (r, w')))"
  by (simp add: main_run_def Let_def)






section \<open>Splitting a batch\<close>









section \<open>Calls and the committed state\<close>

text \<open>
  The calls of a whole invocation, and the committed state as the only part of the
  data source that a result depends on.
\<close>

lemma new_calls_same: "new_calls w w = []"
  by (simp add: new_calls_def)

lemma new_calls_append: "calls w' = calls w @ new \<Longrightarrow> new_calls w w' = new"
  by (simp add: new_calls_def)

lemma main_run_calls:
  "calls (snd (main_run eng sm sql w)) = calls w @ new_calls w (snd (main_run eng sm sql w))"
  using execute_calls [of eng "inject_limit (body sql)" w]
  by (auto simp: main_run_unfold new_calls_same split: prod.splits sum.splits)

lemma main_run_new_calls:
  "new_calls w (snd (main_run eng sm sql w)) = []
   \<or> new_calls w (snd (main_run eng sm sql w)) = [Connect]
   \<or> new_calls w (snd (main_run eng sm sql w)) = [Connect, Execute (inject_limit (body sql))]
   \<or> (new_calls w (snd (main_run eng sm sql w)) = [Connect, Execute (inject_limit (body sql)), Commit]
       \<and> re_match allowed_rx (body sql) \<and> \<not> re_match select_rx (body sql))"
  using execute_new_calls [of w eng "inject_limit (body sql)"]
  by (auto simp: main_run_unfold new_calls_same select_inject_limit split: prod.splits sum.splits)

lemma main_run_select_durable:
  "re_match select_rx (body sql) \<Longrightarrow> durable (snd (main_run eng sm sql w)) = durable w"
  using execute_select [of "inject_limit (body sql)" eng w]
  by (auto simp: main_run_unfold select_inject_limit split: prod.splits sum.splits)



lemma app_loop_select_durable:
  "\<forall>s\<in>set stmts. re_match select_rx s \<Longrightarrow>
   durable (snd (app_loop eng sm st stmts results w)) = durable w"
proof (induction stmts arbitrary: results w)
  case Nil
  show ?case by simp
next
  case (Cons s rest)
  obtain r u where e: "execute eng (inject_limit s) w = (r, u)"
    by (cases "execute eng (inject_limit s) w")
  have "durable u = durable w"
    using execute_select [of "inject_limit s" eng w] Cons.prems e
    by (simp add: select_inject_limit)
  have u: "durable u = durable w"
    by fact
  show ?case
  proof (cases r)
    case (Inl x)
    with e u show ?thesis by (simp add: Let_def)
  next
    case (Inr v)
    have "durable (snd (app_loop eng sm st rest (results @ [v]) u)) = durable u"
      using Cons.prems by (intro Cons.IH) simp
    with e u Inr show ?thesis by (simp add: Let_def)
  qed
qed

lemma app_loop_commits:
  "\<exists>new. calls (snd (app_loop eng sm st stmts results w)) = calls w @ new
         \<and> (Commit \<in> set new \<longrightarrow> (\<exists>s\<in>set stmts. re_search write_rx s \<and> \<not> re_match select_rx s))"
proof (induction stmts arbitrary: results w)
  case Nil
  show ?case by simp
next
  case (Cons s rest)
  show ?case
  proof (cases "re_search dangerous_rx s \<or> (re_search write_rx s \<and> (sm = None \<or> \<not> session_is_authenticated st))
                \<or> \<not> re_match allowed_rx s")
    case True
    then show ?thesis by auto
  next
    case False
    obtain r w1 where ex: "execute eng (inject_limit s) w = (r, w1)"
      by (cases "execute eng (inject_limit s) w")
    have c1: "calls w1 = calls w @ new_calls w w1"
      using execute_calls [of eng "inject_limit s" w] ex by simp
    have n1: "Commit \<in> set (new_calls w w1) \<longrightarrow> re_search write_rx s \<and> \<not> re_match select_rx s"
      using execute_new_calls [of w eng "inject_limit s"] ex False allowed_write [of s]
      by (auto simp: select_inject_limit)
    show ?thesis
    proof (cases r)
      case (Inl e)
      with False ex c1 n1 show ?thesis by auto
    next
      case (Inr v)
      obtain new where "calls (snd (app_loop eng sm st rest (results @ [v]) w1)) = calls w1 @ new"
        "Commit \<in> set new \<longrightarrow> (\<exists>s\<in>set rest. re_search write_rx s \<and> \<not> re_match select_rx s)"
        using Cons.IH [of "results @ [v]" w1] by blast
      with Inr False ex c1 n1 show ?thesis
        by (intro exI [of _ "new_calls w w1 @ new"]) auto
    qed
  qed
qed

section \<open>The statement sent to the driver\<close>













section \<open>C1: dangerous keywords\<close>




section \<open>C2: validation errors and partial execution\<close>




section \<open>C3: writes need authentication\<close>




section \<open>C4: multiple statements in \<open>main.py\<close>\<close>




section \<open>C5: the injected limit\<close>



section \<open>C6: statements that start with CREATE, ALTER or REPLACE\<close>




section \<open>C7: reading twice\<close>



section \<open>C8: reads never commit\<close>

text \<open>
  C8. For a statement that starts with \<open>SELECT\<close> the gateway never calls
  \<open>commit\<close> and the committed state after the invocation is the state before
  it; when \<open>commit\<close> has been called, the statement contains a write keyword and
  does not start with \<open>SELECT\<close>. In \<open>app.py\<close> the same holds for a batch: no
  commit when every statement starts with \<open>SELECT\<close>, and a commit only when some
  statement of the batch is a write.
\<close>

theorem read_never_commits:
  "(re_match select_rx (body sql)
      \<longrightarrow> durable (snd (main_run eng sm sql w)) = durable w
          \<and> Commit \<notin> set (new_calls w (snd (main_run eng sm sql w))))
   \<and> (Commit \<in> set (new_calls w (snd (main_run eng sm sql w)))
      \<longrightarrow> re_search write_rx sql \<and> \<not> re_match select_rx (body sql))
   \<and> ((\<forall>s\<in>set (statements sql). re_match select_rx s)
      \<longrightarrow> durable (snd (app_run eng' asm st sql w')) = durable w'
          \<and> Commit \<notin> set (new_calls w' (snd (app_run eng' asm st sql w'))))
   \<and> (Commit \<in> set (new_calls w' (snd (app_run eng' asm st sql w')))
      \<longrightarrow> (\<exists>s\<in>set (statements sql). re_search write_rx s \<and> \<not> re_match select_rx s))"
proof -
  have m: "Commit \<in> set (new_calls w (snd (main_run eng sm sql w)))
      \<longrightarrow> re_search write_rx sql \<and> \<not> re_match select_rx (body sql)"
    using main_run_new_calls [of w eng sm sql] allowed_write [of "body sql"]
    by (auto simp: write_body)
  obtain new where new: "calls (snd (app_run eng' asm st sql w')) = calls w' @ new"
    "Commit \<in> set new \<longrightarrow> (\<exists>s\<in>set (statements sql). re_search write_rx s \<and> \<not> re_match select_rx s)"
    using app_loop_commits [of eng' asm st "statements sql" "[]" w'] by (auto simp: app_run_def)
  have a: "Commit \<in> set (new_calls w' (snd (app_run eng' asm st sql w')))
      \<longrightarrow> (\<exists>s\<in>set (statements sql). re_search write_rx s \<and> \<not> re_match select_rx s)"
    using new by (simp add: new_calls_append)
  have d: "(\<forall>s\<in>set (statements sql). re_match select_rx s)
      \<longrightarrow> durable (snd (app_run eng' asm st sql w')) = durable w'"
    using app_loop_select_durable [of "statements sql" eng' asm st "[]" w'] by (simp add: app_run_def)
  show ?thesis
    using m a d main_run_select_durable [of sql eng sm w] by blast
qed

theorem read_never_commits_witness:
  "re_match select_rx (body ''SELECT a FROM t'')
   \<and> durable (snd (main_run demo_engine logged_out ''SELECT a FROM t'' demo_world)) = durable demo_world
   \<and> Commit \<notin> set (new_calls demo_world (snd (main_run demo_engine logged_out ''SELECT a FROM t'' demo_world)))
   \<and> Commit \<in> set (new_calls demo_world (snd (main_run demo_engine logged_in ''DELETE FROM t'' demo_world)))
   \<and> re_search write_rx ''DELETE FROM t''
   \<and> \<not> re_match select_rx (body ''DELETE FROM t'')
   \<and> list_all (re_match select_rx) (statements ''SELECT a FROM t; SELECT COUNT(*) FROM t'')
   \<and> durable (snd (app_run demo_engine app_manager \<lparr>session_is_authenticated = False\<rparr>
         ''SELECT a FROM t; SELECT COUNT(*) FROM t'' demo_world)) = durable demo_world
   \<and> Commit \<notin> set (new_calls demo_world (snd (app_run demo_engine app_manager
         \<lparr>session_is_authenticated = False\<rparr> ''SELECT a FROM t; SELECT COUNT(*) FROM t'' demo_world)))
   \<and> Commit \<in> set (new_calls demo_world (snd (app_run demo_engine app_manager
         \<lparr>session_is_authenticated = True\<rparr> ''SELECT a FROM t; DELETE FROM t'' demo_world)))
   \<and> (\<exists>s\<in>set (statements ''SELECT a FROM t; DELETE FROM t'').
         re_search write_rx s \<and> \<not> re_match select_rx s)"
proof -
  have h1: "re_match select_rx (body ''SELECT a FROM t'')" by code_simp
  have h2: "Commit \<in> set (new_calls demo_world (snd (main_run demo_engine logged_in ''DELETE FROM t'' demo_world)))"
    by code_simp
  have h3: "\<forall>s\<in>set (statements ''SELECT a FROM t; SELECT COUNT(*) FROM t''). re_match select_rx s"
    by code_simp
  have h4: "Commit \<in> set (new_calls demo_world (snd (app_run demo_engine app_manager
         \<lparr>session_is_authenticated = True\<rparr> ''SELECT a FROM t; DELETE FROM t'' demo_world)))"
    by code_simp
  note A = read_never_commits [where sql = "''SELECT a FROM t''" and eng = demo_engine
      and sm = logged_out and w = demo_world, THEN conjunct1, THEN mp, OF h1]
  note B = read_never_commits [where sql = "''DELETE FROM t''" and eng = demo_engine
      and sm = logged_in and w = demo_world, THEN conjunct2, THEN conjunct1, THEN mp, OF h2]
  note C = read_never_commits [where sql = "''SELECT a FROM t; SELECT COUNT(*) FROM t''"
      and eng' = demo_engine and asm = app_manager and st = "\<lparr>session_is_authenticated = False\<rparr>"
      and w' = demo_world, THEN conjunct2, THEN conjunct2, THEN conjunct1, THEN mp, OF h3]
  note D = read_never_commits [where sql = "''SELECT a FROM t; DELETE FROM t''"
      and eng' = demo_engine and asm = app_manager and st = "\<lparr>session_is_authenticated = True\<rparr>"
      and w' = demo_world, THEN conjunct2, THEN conjunct2, THEN conjunct2, THEN mp, OF h4]
  show ?thesis
    by (intro conjI h1 h2 h4 h3 [folded list_all_iff] A [THEN conjunct1] A [THEN conjunct2]
        B [THEN conjunct1] B [THEN conjunct2] C [THEN conjunct1] C [THEN conjunct2] D)
qed

section \<open>C9: the empty batch\<close>



section \<open>C10: the order of the checks in \<open>main.py\<close>\<close>



end
